theory Spec2Isabelle
  imports Main "HOL-Library.Sublist"
begin

section \<open>Data model of SpaRe.py\<close>

text \<open>
  A Python \<open>str\<close> is a sequence of Unicode code points, and \<open>len\<close> counts code points.
  A character is therefore modelled by its code point, a natural number, and a string by the
  list of its code points. \<open>ustr\<close> turns an Isabelle (ASCII) literal into such a string.
\<close>

type_synonym codepoint = nat
type_synonym str = "codepoint list"

definition ustr :: "string \<Rightarrow> str" where
  "ustr s = map of_char s"

definition space :: codepoint where
  "space = 32"

definition hyphen :: codepoint where
  "hyphen = 45"

definition newline :: codepoint where
  "newline = 10"

text \<open>
  The three-character literal of the \<open>elif\<close> branch of \<open>clean_text\<close>: U+00E2, U+20AC, U+2122
  (a typographic apostrophe decoded with the wrong code page).
\<close>

definition apostrophe :: str where
  "apostrophe = [226, 8364, 8482]"

datatype error = FileNotFoundError | ZeroDivisionError

text \<open>
  A Python \<open>dict\<close> iterates in insertion order, and \<open>update\<close> on a key that is already
  present replaces the value at the key's position. It is modelled by an association list in
  insertion order.
\<close>

type_synonym ('k, 'v) dict = "('k \<times> 'v) list"

fun dict_update :: "'k \<Rightarrow> 'v \<Rightarrow> ('k, 'v) dict \<Rightarrow> ('k, 'v) dict" where
  "dict_update k v [] = [(k, v)]"
| "dict_update k v ((k', v') # d) =
     (if k' = k then (k', v) # d else (k', v') # dict_update k v d)"

section \<open>Library functions used by the program\<close>

text \<open>
  Python's built-in \<open>str.find\<close>: the lowest index at which \<open>sub\<close> occurs in \<open>text\<close>, and
  \<open>-1\<close> when it does not occur. The empty string occurs at index 0 of every text.
\<close>

fun find_from :: "str \<Rightarrow> str \<Rightarrow> nat \<Rightarrow> int" where
  "find_from [] sub i = (if sub = [] then int i else - 1)"
| "find_from (c # cs) sub i =
     (if prefix sub (c # cs) then int i else find_from cs sub (Suc i))"

definition str_find :: "str \<Rightarrow> str \<Rightarrow> int" where
  "str_find text sub = find_from text sub 0"

text \<open>
  \<open>math.ceil(a / b)\<close> for integers \<open>a\<close> and \<open>b \<noteq> 0\<close>. Python divides in double precision and
  rounds the quotient correctly, so its ceiling is the exact one for \<open>0 \<le> a < 2 ^ 53\<close> and
  \<open>0 < b < 2 ^ 1000\<close>, which the length of a string in memory and a number of chunks that the
  loop can run through are. Integer division in HOL rounds towards minus infinity, as the
  floor does.
\<close>

definition ceil_div :: "int \<Rightarrow> int \<Rightarrow> int" where
  "ceil_div a b = - ((- a) div b)"

section \<open>find_SpaRe\<close>

text \<open>
  The first loop of \<open>find_SpaRe\<close> runs over \<open>range(len(snippets)-1)\<close>; the range is empty for
  an empty list as well, which the truncating subtraction on naturals gives too. The state of
  the loop is the dictionary \<open>location_and_length\<close> and the list \<open>snippet_indices\<close>.
\<close>

definition find_step ::
  "str \<Rightarrow> str list \<Rightarrow> (int, int) dict \<times> int list \<Rightarrow> nat \<Rightarrow> (int, int) dict \<times> int list" where
  "find_step text snippets st x =
     (let index = str_find text (snippets ! x);
          snippet_indices = snd st @ [index];
          snippet_length = int (length (snippets ! x))
      in (dict_update index snippet_length (fst st), snippet_indices))"

definition location_and_length :: "str \<Rightarrow> str list \<Rightarrow> (int, int) dict" where
  "location_and_length text snippets =
     fst (foldl (find_step text snippets) ([], []) [0..<length snippets - 1])"

text \<open>The second loop: one location for every key of the dictionary, in its order.\<close>

definition find_SpaRe :: "str \<Rightarrow> str list \<Rightarrow> int list" where
  "find_SpaRe text snippets =
     foldl (\<lambda>SpIn_location x.
              SpIn_location @ [x + the (map_of (location_and_length text snippets) x) + 1])
       [] (map fst (location_and_length text snippets))"

section \<open>freq_SpIn\<close>

definition chunk_length :: "str \<Rightarrow> int \<Rightarrow> int" where
  "chunk_length text nr_of_chunks = ceil_div (int (length text)) nr_of_chunks"

definition chunk_end :: "int \<Rightarrow> int \<Rightarrow> int \<Rightarrow> int" where
  "chunk_end len chunk x = (if chunk = 1 then len * chunk else len * chunk + x)"

definition chunk_start :: "int \<Rightarrow> int \<Rightarrow> int \<Rightarrow> int" where
  "chunk_start len chunk x = chunk_end len chunk x - len"

text \<open>
  The inner loop runs over the indices of \<open>SpIn_location\<close>; its state is \<open>count\<close> and the
  dictionary \<open>densities\<close>.
\<close>

definition count_step ::
  "int list \<Rightarrow> int \<Rightarrow> int \<Rightarrow> int \<Rightarrow> int \<times> (int, int) dict \<Rightarrow> nat \<Rightarrow> int \<times> (int, int) dict" where
  "count_step SpIn_location start end chunk st SpIn_index =
     (if start \<le> SpIn_location ! SpIn_index \<and> SpIn_location ! SpIn_index \<le> end
      then (fst st + 1, dict_update chunk (fst st + 1) (snd st))
      else st)"

text \<open>The outer loop; its state is the counter \<open>x\<close> and the dictionary \<open>densities\<close>.\<close>

definition chunk_step ::
  "int list \<Rightarrow> int \<Rightarrow> int \<times> (int, int) dict \<Rightarrow> int \<Rightarrow> int \<times> (int, int) dict" where
  "chunk_step SpIn_location len st chunk =
     (let end = chunk_end len chunk (fst st);
          start = chunk_start len chunk (fst st);
          x = fst st + 1;
          inner = foldl (count_step SpIn_location start end chunk)
                    (0, dict_update chunk 0 (snd st)) [0..<length SpIn_location]
      in (x, snd inner))"

definition freq_SpIn :: "int list \<Rightarrow> str \<Rightarrow> int \<Rightarrow> error + (int, int) dict" where
  "freq_SpIn SpIn_location text nr_of_chunks =
     (if nr_of_chunks = 0 then Inl ZeroDivisionError
      else Inr (snd (foldl (chunk_step SpIn_location (chunk_length text nr_of_chunks))
                       (0, []) [1..nr_of_chunks])))"

section \<open>clean_text\<close>

text \<open>
  \<open>str.isalpha\<close> is Python's own predicate on characters (true of the code points that
  Unicode classifies as letters); the program does not define it, so the model takes it as the
  parameter \<open>isalpha\<close>. The file system is a partial map from paths to the text that
  \<open>file.read()\<close> returns; \<open>open\<close> raises for a path that is not there.
\<close>

definition replace_newlines :: "str \<Rightarrow> str" where
  "replace_newlines s = map (\<lambda>c. if c = newline then space else c) s"

text \<open>
  The first loop. A single character \<open>letter\<close> is a string of length one, which the \<open>elif\<close>
  compares with the three-character literal.
\<close>

definition keep_step :: "(codepoint \<Rightarrow> bool) \<Rightarrow> str \<Rightarrow> codepoint \<Rightarrow> str" where
  "keep_step isalpha alnum_and_space letter =
     (if isalpha letter \<or> letter = space \<or> letter = hyphen then alnum_and_space @ [letter]
      else if [letter] = apostrophe then alnum_and_space @ [space]
      else alnum_and_space)"

definition alnum_and_space :: "(codepoint \<Rightarrow> bool) \<Rightarrow> str \<Rightarrow> str" where
  "alnum_and_space isalpha text_as_string = foldl (keep_step isalpha) [] text_as_string"

text \<open>
  The second loop runs over \<open>range(len(alnum_and_space)-1)\<close>, so \<open>index + 1\<close> is always a
  valid index; the range is empty for the empty string.
\<close>

definition single_step :: "str \<Rightarrow> str \<Rightarrow> nat \<Rightarrow> str" where
  "single_step s alnum_and_single_space index =
     (if s ! index = space
      then (if \<not> s ! (index + 1) = space then alnum_and_single_space @ [s ! index]
            else alnum_and_single_space)
      else alnum_and_single_space @ [s ! index])"

definition alnum_and_single_space :: "str \<Rightarrow> str" where
  "alnum_and_single_space s = foldl (single_step s) [] [0..<length s - 1]"

definition clean_text :: "(codepoint \<Rightarrow> bool) \<Rightarrow> (str \<rightharpoonup> str) \<Rightarrow> str \<Rightarrow> error + str" where
  "clean_text isalpha fs text =
     (case fs text of
        None \<Rightarrow> Inl FileNotFoundError
      | Some contents \<Rightarrow>
          Inr (alnum_and_single_space (alnum_and_space isalpha (replace_newlines contents))))"

section \<open>Notions used to state the properties\<close>

text \<open>
  The outer loop of \<open>freq_SpIn\<close> enters the iteration for \<open>chunk\<close> with \<open>x = chunk - 1\<close>
  (lemma \<open>chunk_loop\<close> below), so these are the bounds the code compares a location with in
  that iteration.
\<close>

abbreviation in_chunk :: "int \<Rightarrow> int \<Rightarrow> int \<Rightarrow> bool" where
  "in_chunk len chunk loc \<equiv>
     chunk_start len chunk (chunk - 1) \<le> loc \<and> loc \<le> chunk_end len chunk (chunk - 1)"

text \<open>
  What \<open>str.find\<close> is meant to compute: \<open>sub\<close> occurs in \<open>text\<close> when it is a prefix of the
  rest of the text at some offset up to the length of the text, and its first occurrence is the
  least such offset.
\<close>

definition first_occurrence :: "str \<Rightarrow> str \<Rightarrow> nat \<Rightarrow> bool" where
  "first_occurrence text sub j \<longleftrightarrow>
     j \<le> length text \<and> prefix sub (drop j text) \<and>
     list_all (\<lambda>j'. \<not> prefix sub (drop j' text)) [0..<j]"

definition occurs :: "str \<Rightarrow> str \<Rightarrow> bool" where
  "occurs text sub \<longleftrightarrow> list_ex (\<lambda>j. prefix sub (drop j text)) [0..<Suc (length text)]"

text \<open>
  The dictionary after the first loop of \<open>find_SpaRe\<close> has recorded the snippets \<open>ps\<close>, in
  their order, starting from the dictionary \<open>d\<close>.
\<close>

abbreviation recorded :: "str \<Rightarrow> (int, int) dict \<Rightarrow> str list \<Rightarrow> (int, int) dict" where
  "recorded text d ps \<equiv>
     foldl (\<lambda>d s. dict_update (str_find text s) (int (length s)) d) d ps"

text \<open>The characters that the first loop of \<open>clean_text\<close> keeps.\<close>

abbreviation kept :: "(codepoint \<Rightarrow> bool) \<Rightarrow> codepoint \<Rightarrow> bool" where
  "kept isalpha letter \<equiv> isalpha letter \<or> letter = space \<or> letter = hyphen"

text \<open>The string that \<open>clean_text\<close> returns for the contents of a file.\<close>

abbreviation cleaned :: "(codepoint \<Rightarrow> bool) \<Rightarrow> str \<Rightarrow> str" where
  "cleaned isalpha contents \<equiv>
     alnum_and_single_space (alnum_and_space isalpha (replace_newlines contents))"

text \<open>
  The second loop of \<open>clean_text\<close> as a recursion over the string: every character that has
  a successor is emitted, unless it is a space and its successor is one too (lemma
  \<open>alnum_and_single_space_eq\<close> below).
\<close>

fun collapse :: "str \<Rightarrow> str" where
  "collapse (c # d # r) =
     (if c = space \<and> d = space then collapse (d # r) else c # collapse (d # r))"
| "collapse r = []"


section \<open>Dictionaries\<close>

lemma dict_update_keys:
  "map fst (dict_update k v d) = (if k \<in> set (map fst d) then map fst d else map fst d @ [k])"
  by (induction d) force+

lemma dict_update_new: "k \<notin> set (map fst d) \<Longrightarrow> dict_update k v d = d @ [(k, v)]"
  by (induction d) auto

lemma dict_update_twice: "dict_update k v (dict_update k w d) = dict_update k v d"
  by (induction d) auto

lemma map_of_dict_update: "map_of (dict_update k v d) = (map_of d)(k \<mapsto> v)"
  by (induction d) auto

lemma distinct_dict_update:
  "distinct (map fst d) \<Longrightarrow> distinct (map fst (dict_update k v d))"
  by (simp add: dict_update_keys)

lemma dict_update_key_set: "fst ` set (dict_update k v d) = insert k (fst ` set d)"
proof -
  have "set (map fst (dict_update k v d)) = insert k (set (map fst d))"
    by (simp only: dict_update_keys) auto
  then show ?thesis by simp
qed

lemma dict_entry:
  "distinct (map fst d) \<Longrightarrow> map_of d k = Some v \<Longrightarrow> filter (\<lambda>kv. fst kv = k) d = [(k, v)]"
proof (induction d)
  case Nil
  then show ?case by simp
next
  case (Cons p d)
  show ?case
  proof (cases "fst p = k")
    case True
    with Cons.prems have "p = (k, v)" by (cases p) simp
    moreover have "k \<notin> fst ` set d" using Cons.prems(1) True by auto
    then have "filter (\<lambda>kv. fst kv = k) d = []"
      unfolding filter_empty_conv by (metis imageI)
    ultimately show ?thesis by simp
  next
    case False
    with Cons show ?thesis by (cases p) auto
  qed
qed

lemma dict_values:
  "distinct (map fst d) \<Longrightarrow> map (\<lambda>x. f x (the (map_of d x))) (map fst d) = map (\<lambda>kv. f (fst kv) (snd kv)) d"
  by (induction d) (auto simp: rev_image_eqI)

section \<open>The loops of freq_SpIn\<close>

lemma count_loop:
  "m \<le> length locs \<Longrightarrow>
   foldl (count_step locs s e chunk) (c, dict_update chunk c d) [0..<m] =
     (c + int (length (filter (\<lambda>l. s \<le> l \<and> l \<le> e) (take m locs))),
      dict_update chunk (c + int (length (filter (\<lambda>l. s \<le> l \<and> l \<le> e) (take m locs)))) d)"
proof (induction m)
  case 0
  then show ?case by simp
next
  case (Suc m)
  then have m: "m < length locs" by simp
  with Suc show ?case
    by (simp add: take_Suc_conv_app_nth count_step_def dict_update_twice add.assoc)
qed

lemma chunk_step_eq:
  "chunk \<notin> set (map fst d) \<Longrightarrow>
   chunk_step locs len (chunk - 1, d) chunk =
     (chunk, d @ [(chunk, int (length (filter (in_chunk len chunk) locs)))])"
  using count_loop [of "length locs" locs _ _ chunk 0 d]
  by (simp add: chunk_step_def Let_def dict_update_new)

lemma chunk_loop:
  "foldl (chunk_step locs len) (0, []) [1..int n] =
     (int n, map (\<lambda>k. (k, int (length (filter (in_chunk len k) locs)))) [1..int n])"
proof (induction n)
  case 0
  then show ?case by simp
next
  case (Suc n)
  let ?d = "map (\<lambda>k. (k, int (length (filter (in_chunk len k) locs)))) [1..int n]"
  have up: "[1..int n + 1] = [1..int n] @ [int n + 1]"
    using upto_rec2 [of 1 "int n + 1"] by simp
  have notin: "int n + 1 \<notin> set (map fst ?d)"
    by (simp add: comp_def)
  have step: "chunk_step locs len (int n, ?d) (int n + 1) =
      (int n + 1, ?d @ [(int n + 1, int (length (filter (in_chunk len (int n + 1)) locs)))])"
    using chunk_step_eq [OF notin, of locs len] by simp
  have "foldl (chunk_step locs len) (0, []) [1..int n + 1] =
      chunk_step locs len (foldl (chunk_step locs len) (0, []) [1..int n]) (int n + 1)"
    by (simp only: up foldl_append foldl.simps)
  also have "\<dots> = (int n + 1, ?d @ [(int n + 1, int (length (filter (in_chunk len (int n + 1)) locs)))])"
    by (simp only: Suc.IH step)
  also have "\<dots> = (int n + 1, map (\<lambda>k. (k, int (length (filter (in_chunk len k) locs)))) [1..int n + 1])"
    by (simp only: up map_append list.map)
  finally show ?case by (simp add: add.commute)
qed

lemma freq_SpIn_eq:
  "0 < N \<Longrightarrow>
   freq_SpIn locs text N =
     Inr (map (\<lambda>k. (k, int (length (filter (in_chunk (chunk_length text N) k) locs)))) [1..N])"
  using chunk_loop [of locs "chunk_length text N" "nat N"]
  by (simp add: freq_SpIn_def)

section \<open>Arithmetic of the chunk bounds\<close>

lemma chunk_end_eq: "chunk_end len chunk (chunk - 1) = chunk * (len + 1) - 1"
  by (simp add: chunk_end_def algebra_simps)

lemma chunk_start_eq: "chunk_start len chunk (chunk - 1) = (chunk - 1) * (len + 1)"
  by (simp add: chunk_start_def chunk_end_def algebra_simps)

lemma in_chunk_iff_div:
  assumes "0 \<le> len"
  shows "in_chunk len chunk loc \<longleftrightarrow> chunk = loc div (len + 1) + 1"
proof -
  let ?M = "len + 1"
  have M: "0 < ?M" using assms by simp
  have "in_chunk len chunk loc \<longleftrightarrow> (chunk - 1) * ?M \<le> loc \<and> loc < chunk * ?M"
    by (simp only: chunk_end_eq chunk_start_eq) auto
  also have "\<dots> \<longleftrightarrow> loc div ?M = chunk - 1"
  proof
    assume h: "(chunk - 1) * ?M \<le> loc \<and> loc < chunk * ?M"
    then have "loc = ?M * (chunk - 1) + (loc - (chunk - 1) * ?M)"
      and "0 \<le> loc - (chunk - 1) * ?M" and "loc - (chunk - 1) * ?M < ?M"
      by (simp_all add: algebra_simps)
    then show "loc div ?M = chunk - 1"
      by (rule int_div_pos_eq)
  next
    assume h: "loc div ?M = chunk - 1"
    have e: "?M * (loc div ?M) + loc mod ?M = loc" by simp
    have r: "0 \<le> loc mod ?M" "loc mod ?M < ?M"
      using pos_mod_sign [OF M, of loc] pos_mod_bound [OF M, of loc] by blast+
    have "loc div ?M * ?M = ?M * (loc div ?M)" by (rule mult.commute)
    then have "loc div ?M * ?M \<le> loc" using e r(1) by linarith
    moreover have "(loc div ?M + 1) * ?M = ?M * (loc div ?M) + ?M" by (simp only: algebra_simps)
    then have "loc < (loc div ?M + 1) * ?M"
      using e r(2) by linarith
    ultimately show "(chunk - 1) * ?M \<le> loc \<and> loc < chunk * ?M"
      using h by simp
  qed
  finally show ?thesis by auto
qed

lemma ceil_div_nonneg: "0 \<le> a \<Longrightarrow> 0 < b \<Longrightarrow> 0 \<le> ceil_div a b"
  by (simp add: ceil_div_def div_nonpos_pos_le0)

lemma ceil_div_covers: "0 < b \<Longrightarrow> a \<le> b * ceil_div a b"
proof -
  assume b: "0 < b"
  have e: "b * ((- a) div b) + (- a) mod b = - a" by simp
  have r: "0 \<le> (- a) mod b" using b by simp
  have "b * ((- a) div b) \<le> - a"
    using e r by linarith
  then show ?thesis by (simp add: ceil_div_def)
qed

lemma chunk_length_nonneg: "0 < N \<Longrightarrow> 0 \<le> chunk_length text N"
  by (simp add: chunk_length_def ceil_div_nonneg)

lemma in_chunk_unique:
  assumes "0 \<le> len" and "in_chunk len k loc"
  shows "in_chunk len j loc \<longleftrightarrow> j = k"
  using in_chunk_iff_div [OF assms(1), of j loc] in_chunk_iff_div [OF assms(1), of k loc] assms(2)
  by simp

lemma chunk_end_in_chunk: "0 \<le> len \<Longrightarrow> in_chunk len k (chunk_end len k (k - 1))"
proof -
  assume "0 \<le> len"
  then have "chunk_start len k (k - 1) \<le> chunk_end len k (k - 1)"
    by (simp add: chunk_start_def)
  then show ?thesis by simp
qed

lemma chunk_start_in_chunk: "0 \<le> len \<Longrightarrow> in_chunk len k (chunk_start len k (k - 1))"
proof -
  assume "0 \<le> len"
  then have "chunk_start len k (k - 1) \<le> chunk_end len k (k - 1)"
    by (simp add: chunk_start_def)
  then show ?thesis by simp
qed

lemma count_single:
  assumes "0 \<le> len" and "in_chunk len k loc"
  shows "map (\<lambda>j. (j, int (length (filter (in_chunk len j) [loc])))) js =
         map (\<lambda>j. (j, if j = k then 1 else 0)) js"
  using in_chunk_unique [OF assms] by (intro map_cong) auto

section \<open>Counting locations over the chunks\<close>

lemma filter_eq_distinct:
  "distinct xs \<Longrightarrow> filter (\<lambda>k. k = q) xs = (if q \<in> set xs then [q] else [])"
  by (induction xs) auto

lemma sum_counts:
  "sum_list (map (\<lambda>k. int (length (filter (P k) locs))) ks) =
   sum_list (map (\<lambda>l. int (length (filter (\<lambda>k. P k l) ks))) locs)"
proof (induction locs)
  case Nil
  then show ?case by (induction ks) simp_all
next
  case (Cons l locs)
  have "sum_list (map (\<lambda>k. int (length (filter (P k) (l # locs)))) ks) =
      sum_list (map (\<lambda>k. (if P k l then 1 else 0) + int (length (filter (P k) locs))) ks)"
    by (intro arg_cong [of _ _ sum_list] map_cong) auto
  also have "\<dots> = sum_list (map (\<lambda>k. if P k l then 1 else 0) ks) +
      sum_list (map (\<lambda>k. int (length (filter (P k) locs))) ks)"
    by (simp add: sum_list_addf)
  also have "sum_list (map (\<lambda>k. if P k l then 1 else 0) ks) = int (length (filter (\<lambda>k. P k l) ks))"
    by (induction ks) simp_all
  finally show ?case using Cons.IH by simp
qed

lemma chunks_containing:
  assumes "0 \<le> len"
  shows "length (filter (\<lambda>k. in_chunk len k loc) [1..N]) =
         (if 0 \<le> loc \<and> loc \<le> N * (len + 1) - 1 then 1 else 0)"
proof -
  let ?M = "len + 1"
  let ?q = "loc div ?M + 1"
  have M: "0 < ?M" using assms by simp
  have q: "in_chunk len ?q loc"
    using in_chunk_iff_div [OF assms, of ?q loc] by simp
  then have lo: "(?q - 1) * ?M \<le> loc" and hi: "loc < ?q * ?M"
    by (simp_all only: chunk_start_eq chunk_end_eq) simp_all
  have "filter (\<lambda>k. in_chunk len k loc) [1..N] = filter (\<lambda>k. k = ?q) [1..N]"
    using in_chunk_iff_div [OF assms, of _ loc] by (intro filter_cong) auto
  also have "\<dots> = (if ?q \<in> set [1..N] then [?q] else [])"
    by (rule filter_eq_distinct) simp
  finally have f: "length (filter (\<lambda>k. in_chunk len k loc) [1..N]) =
      (if 1 \<le> ?q \<and> ?q \<le> N then 1 else 0)" by simp
  have "1 \<le> ?q \<and> ?q \<le> N \<longleftrightarrow> 0 \<le> loc \<and> loc \<le> N * ?M - 1"
  proof
    assume a: "1 \<le> ?q \<and> ?q \<le> N"
    then have "0 \<le> loc div ?M" by simp
    then have "0 \<le> loc" using M by (simp only: pos_imp_zdiv_nonneg_iff)
    moreover have "?q * ?M \<le> N * ?M"
      using a M by (intro mult_right_mono) simp_all
    ultimately show "0 \<le> loc \<and> loc \<le> N * ?M - 1" using hi by linarith
  next
    assume a: "0 \<le> loc \<and> loc \<le> N * ?M - 1"
    then have "0 \<le> loc div ?M" using M by (simp only: pos_imp_zdiv_nonneg_iff)
    moreover have "(?q - 1) * ?M < N * ?M" using lo a by linarith
    then have "?q - 1 < N" using M by (simp only: mult_less_cancel_right)
    ultimately show "1 \<le> ?q \<and> ?q \<le> N" by linarith
  qed
  with f show ?thesis by simp
qed

lemma freq_SpIn_sum:
  assumes "0 < N"
  shows "sum_list (map snd (map (\<lambda>k. (k, int (length (filter (in_chunk (chunk_length text N) k) locs)))) [1..N])) =
         int (length (filter (\<lambda>loc. 0 \<le> loc \<and> loc \<le> N * (chunk_length text N + 1) - 1) locs))"
proof -
  let ?L = "chunk_length text N"
  have L: "0 \<le> ?L" using assms by (rule chunk_length_nonneg)
  have "sum_list (map snd (map (\<lambda>k. (k, int (length (filter (in_chunk ?L k) locs)))) [1..N])) =
      sum_list (map (\<lambda>k. int (length (filter (in_chunk ?L k) locs))) [1..N])"
    by (simp add: comp_def)
  also have "\<dots> = sum_list (map (\<lambda>l. int (length (filter (\<lambda>k. in_chunk ?L k l) [1..N]))) locs)"
    by (rule sum_counts)
  also have "\<dots> = sum_list (map (\<lambda>l. if 0 \<le> l \<and> l \<le> N * (?L + 1) - 1 then 1 else 0) locs)"
    by (simp only: chunks_containing [OF L] of_nat_1 of_nat_0 if_distrib [of int])
  also have "\<dots> = int (length (filter (\<lambda>loc. 0 \<le> loc \<and> loc \<le> N * (?L + 1) - 1) locs))"
    by (induction locs) simp_all
  finally show ?thesis .
qed

section \<open>The substring search\<close>

lemma find_from_cases:
  "(find_from text sub i = - 1 \<and> (\<forall>j\<le>length text. \<not> prefix sub (drop j text))) \<or>
   (\<exists>j\<le>length text. find_from text sub i = int (i + j) \<and> prefix sub (drop j text) \<and>
      (\<forall>j'<j. \<not> prefix sub (drop j' text)))"
proof (induction "text" arbitrary: i)
  case Nil
  then show ?case by (cases sub) auto
next
  case (Cons c cs)
  show ?case
  proof (cases "prefix sub (c # cs)")
    case True
    then have "find_from (c # cs) sub i = int (i + 0) \<and> prefix sub (drop 0 (c # cs)) \<and>
        (\<forall>j'<0. \<not> prefix sub (drop j' (c # cs)))" by simp
    then show ?thesis by blast
  next
    case False
    from Cons.IH [of "Suc i"] show ?thesis
    proof (elim disjE conjE exE)
      assume a: "find_from cs sub (Suc i) = - 1" and b: "\<forall>j\<le>length cs. \<not> prefix sub (drop j cs)"
      have "\<forall>j\<le>length (c # cs). \<not> prefix sub (drop j (c # cs))"
      proof (intro allI impI)
        fix j assume "j \<le> length (c # cs)"
        then show "\<not> prefix sub (drop j (c # cs))"
          using False b by (cases j) auto
      qed
      then show ?thesis using a False by simp
    next
      fix j assume j: "j \<le> length cs" and f: "find_from cs sub (Suc i) = int (Suc i + j)"
        and p: "prefix sub (drop j cs)" and m: "\<forall>j'<j. \<not> prefix sub (drop j' cs)"
      have m': "\<forall>j'<Suc j. \<not> prefix sub (drop j' (c # cs))"
      proof (intro allI impI)
        fix j' assume "j' < Suc j"
        then show "\<not> prefix sub (drop j' (c # cs))"
          using False m by (cases j') auto
      qed
      have "Suc j \<le> length (c # cs) \<and> find_from (c # cs) sub i = int (i + Suc j) \<and>
          prefix sub (drop (Suc j) (c # cs))"
        using j f p False by simp
      then show ?thesis using m' by blast
    qed
  qed
qed

lemma occurs_iff: "occurs text sub \<longleftrightarrow> (\<exists>j\<le>length text. prefix sub (drop j text))"
  unfolding occurs_def list_ex_iff set_upt
  by (metis atLeastLessThan_iff less_Suc_eq_le zero_le)

lemma first_occurrence_iff:
  "first_occurrence text sub j \<longleftrightarrow>
     j \<le> length text \<and> prefix sub (drop j text) \<and> (\<forall>j'<j. \<not> prefix sub (drop j' text))"
  unfolding first_occurrence_def list_all_iff set_upt
  by (metis atLeastLessThan_iff zero_le)

lemma str_find_spec:
  "(str_find text sub = - 1 \<and> \<not> occurs text sub) \<or>
   (0 \<le> str_find text sub \<and> first_occurrence text sub (nat (str_find text sub)))"
  using find_from_cases [of "text" sub 0]
  unfolding str_find_def occurs_iff first_occurrence_iff
  by (elim disjE conjE exE) (blast, simp)

lemma first_occurrence_fits:
  "first_occurrence text sub j \<Longrightarrow> j + length sub \<le> length text"
proof -
  assume f: "first_occurrence text sub j"
  then have "length sub \<le> length (drop j text)"
    unfolding first_occurrence_iff by (blast dest: prefix_length_le)
  moreover have "j \<le> length text" using f by (simp add: first_occurrence_iff)
  ultimately show ?thesis by simp
qed

lemma first_occurrence_occurs: "first_occurrence text sub j \<Longrightarrow> occurs text sub"
  unfolding first_occurrence_iff occurs_iff by blast

lemma str_find_found:
  "str_find text sub \<noteq> - 1 \<Longrightarrow>
   0 \<le> str_find text sub \<and> str_find text sub + int (length sub) \<le> int (length text)"
  using str_find_spec [of "text" sub]
    first_occurrence_fits [of "text" sub "nat (str_find text sub)"]
  by auto

section \<open>The loops of find_SpaRe\<close>

lemma find_loop:
  "n \<le> length snippets \<Longrightarrow>
   fst (foldl (find_step text snippets) st [0..<n]) = recorded text (fst st) (take n snippets)"
proof (induction n)
  case 0
  then show ?case by simp
next
  case (Suc n)
  then show ?case
    by (simp add: take_Suc_conv_app_nth find_step_def Let_def)
qed

lemma location_and_length_eq:
  "location_and_length text snippets = recorded text [] (butlast snippets)"
  using find_loop [of "length snippets - 1" snippets "text" "([], [])"]
  by (simp add: location_and_length_def butlast_conv_take)

lemma recorded_distinct:
  "distinct (map fst d) \<Longrightarrow> distinct (map fst (recorded text d ps))"
  by (induction ps arbitrary: d) (simp_all add: distinct_dict_update)

lemma recorded_keys:
  "fst ` set (recorded text d ps) = fst ` set d \<union> str_find text ` set ps"
  by (induction ps arbitrary: d) (simp_all add: dict_update_key_set)

lemma recorded_map_of:
  "map_of (recorded text d ps) off =
     (if \<exists>s\<in>set ps. str_find text s = off
      then Some (int (length (last (filter (\<lambda>s. str_find text s = off) ps))))
      else map_of d off)"
proof (induction ps rule: rev_induct)
  case Nil
  then show ?case by simp
next
  case (snoc s ps)
  then show ?case by (simp add: map_of_dict_update)
qed

lemma append_loop: "foldl (\<lambda>acc x. acc @ [f x]) acc xs = acc @ map f xs"
  by (induction xs arbitrary: acc) simp_all

lemma find_SpaRe_eq:
  "find_SpaRe text snippets =
     map (\<lambda>off. off + int (length (last (filter (\<lambda>s. str_find text s = off) (butlast snippets)))) + 1)
       (map fst (location_and_length text snippets))"
proof -
  let ?d = "location_and_length text snippets"
  have k: "\<And>off. off \<in> set (map fst ?d) \<Longrightarrow> \<exists>s\<in>set (butlast snippets). str_find text s = off"
    using recorded_keys [of "text" "[]" "butlast snippets"]
    by (auto simp: location_and_length_eq)
  have "find_SpaRe text snippets = map (\<lambda>x. x + the (map_of ?d x) + 1) (map fst ?d)"
    by (simp add: find_SpaRe_def append_loop)
  also have "\<dots> = map (\<lambda>off. off + int (length (last (filter (\<lambda>s. str_find text s = off) (butlast snippets)))) + 1)
       (map fst ?d)"
  proof (rule map_cong [OF refl])
    fix off assume "off \<in> set (map fst ?d)"
    from k [OF this] show "off + the (map_of ?d off) + 1 =
        off + int (length (last (filter (\<lambda>s. str_find text s = off) (butlast snippets)))) + 1"
      by (simp add: location_and_length_eq recorded_map_of)
  qed
  finally show ?thesis .
qed

lemma find_SpaRe_members:
  assumes "loc \<in> set (find_SpaRe text snippets)"
  shows "\<exists>s\<in>set (butlast snippets). loc = str_find text s + int (length s) + 1"
proof -
  let ?ps = "butlast snippets"
  from assms obtain off where off: "off \<in> fst ` set (location_and_length text snippets)"
    and loc: "loc = off + int (length (last (filter (\<lambda>s. str_find text s = off) ?ps))) + 1"
    by (subst (asm) find_SpaRe_eq) auto
  from off have "off \<in> str_find text ` set ?ps"
    using recorded_keys [of "text" "[]" ?ps] by (simp add: location_and_length_eq)
  then have ne: "filter (\<lambda>s. str_find text s = off) ?ps \<noteq> []"
    by (auto simp: filter_empty_conv)
  let ?s = "last (filter (\<lambda>s. str_find text s = off) ?ps)"
  have "?s \<in> set (filter (\<lambda>s. str_find text s = off) ?ps)"
    using ne by (rule last_in_set)
  then have "?s \<in> set ?ps" and "str_find text ?s = off" by simp_all
  with loc have "?s \<in> set ?ps \<and> loc = str_find text ?s + int (length ?s) + 1" by simp
  then show ?thesis by (intro bexI [of _ ?s]) simp_all
qed

lemma str_find_lower: "- 1 \<le> str_find text sub"
  using str_find_spec [of "text" sub] by auto

lemma str_find_occurs: "occurs text sub \<longleftrightarrow> str_find text sub \<noteq> - 1"
  using str_find_spec [of "text" sub] first_occurrence_occurs by fastforce

lemma location_and_length_distinct: "distinct (map fst (location_and_length text snippets))"
  using recorded_distinct [of "[]" "text" "butlast snippets"]
  by (simp add: location_and_length_eq)

lemma find_SpaRe_entries:
  "find_SpaRe text snippets = map (\<lambda>kv. fst kv + snd kv + 1) (location_and_length text snippets)"
proof -
  let ?d = "location_and_length text snippets"
  have "find_SpaRe text snippets = map (\<lambda>x. x + the (map_of ?d x) + 1) (map fst ?d)"
    by (simp add: find_SpaRe_def append_loop)
  also have "\<dots> = map (\<lambda>kv. fst kv + snd kv + 1) ?d"
    using dict_values [OF location_and_length_distinct, of "\<lambda>k v. k + v + 1" "text" snippets] .
  finally show ?thesis .
qed

lemma last_filter_nth:
  assumes "j < length ps" and "P (ps ! j)" and "\<forall>k. j < k \<and> k < length ps \<longrightarrow> \<not> P (ps ! k)"
  shows "last (filter P ps) = ps ! j"
proof -
  have "filter P (drop (Suc j) ps) = []"
    using assms(3) by (auto simp: filter_empty_conv in_set_conv_nth)
  moreover have "ps = take j ps @ ps ! j # drop (Suc j) ps"
    using assms(1) by (simp add: id_take_nth_drop)
  then have "filter P ps = filter P (take j ps) @ filter P (ps ! j # drop (Suc j) ps)"
    by (metis filter_append)
  ultimately show ?thesis using assms(2) by simp
qed

section \<open>The scenario of the cat and the mat\<close>

text \<open>
  Claim C1, as the specification states it: for the text \<open>the cat sat on the mat\<close>, the
  snippet list with the one snippet \<open>the cat sat \<close> and two chunks, \<open>find_SpaRe\<close> followed by
  \<open>freq_SpIn\<close> gives the single offset 12 and the histogram \<open>{1: 0, 2: 1}\<close> or
  \<open>{1: 1, 2: 0}\<close>. The code gives none of the three.
\<close>

theorem scenario_cat_mat_differs:
  "find_SpaRe (ustr ''the cat sat on the mat'') [ustr ''the cat sat ''] \<noteq> [12] \<and>
   freq_SpIn (find_SpaRe (ustr ''the cat sat on the mat'') [ustr ''the cat sat ''])
     (ustr ''the cat sat on the mat'') 2 \<noteq> Inr [(1, 0), (2, 1)] \<and>
   freq_SpIn (find_SpaRe (ustr ''the cat sat on the mat'') [ustr ''the cat sat ''])
     (ustr ''the cat sat on the mat'') 2 \<noteq> Inr [(1, 1), (2, 0)]"
  by (simp add: find_SpaRe_def location_and_length_def freq_SpIn_def chunk_step_def
      upto.simps)

text \<open>
  Claim C1, amended: in that scenario \<open>find_SpaRe\<close> returns no offset at all, since the only
  snippet is the last one and the loop stops before it, and the histogram is \<open>{1: 0, 2: 0}\<close>.
  When any further snippet \<open>s\<close> follows, the snippet is searched: the single offset is then
  13, the offset of the snippet plus its length plus one, and the histogram is \<open>{1: 0, 2: 1}\<close>.
\<close>

theorem scenario_cat_mat:
  "find_SpaRe (ustr ''the cat sat on the mat'') [ustr ''the cat sat ''] = [] \<and>
   freq_SpIn (find_SpaRe (ustr ''the cat sat on the mat'') [ustr ''the cat sat ''])
     (ustr ''the cat sat on the mat'') 2 = Inr [(1, 0), (2, 0)] \<and>
   find_SpaRe (ustr ''the cat sat on the mat'') [ustr ''the cat sat '', s] = [13] \<and>
   freq_SpIn (find_SpaRe (ustr ''the cat sat on the mat'') [ustr ''the cat sat '', s])
     (ustr ''the cat sat on the mat'') 2 = Inr [(1, 0), (2, 1)]"
proof -
  have a: "find_SpaRe (ustr ''the cat sat on the mat'') [ustr ''the cat sat ''] = []"
    by (simp add: find_SpaRe_def location_and_length_def)
  have b: "find_SpaRe (ustr ''the cat sat on the mat'') [ustr ''the cat sat '', s] = [13]"
    by (simp add: find_SpaRe_def location_and_length_def find_step_def str_find_def ustr_def)
  have c: "freq_SpIn [] (ustr ''the cat sat on the mat'') 2 = Inr [(1, 0), (2, 0)]"
    by (simp add: freq_SpIn_def chunk_step_def upto.simps)
  have d: "freq_SpIn [13] (ustr ''the cat sat on the mat'') 2 = Inr [(1, 0), (2, 1)]"
    by (simp add: freq_SpIn_def chunk_step_def count_step_def chunk_length_def ceil_div_def
        chunk_end_def chunk_start_def ustr_def upto.simps)
  show ?thesis by (simp only: a b c d simp_thms)
qed

section \<open>The bounds of the chunks\<close>

text \<open>
  Claim C2, as the specification states it: the end of chunk \<open>k\<close> is the start of chunk
  \<open>k + 1\<close>, so that a location on that bound is counted in both. For a text of four
  characters and two chunks, chunk 1 ends at 2 and chunk 2 starts at 3, and the location 2 is
  counted in chunk 1 only.
\<close>

theorem segments_overlap_counterexample:
  "chunk_end (chunk_length (ustr ''abcd'') 2) 1 0 = 2 \<and>
   chunk_start (chunk_length (ustr ''abcd'') 2) 2 1 = 3 \<and>
   chunk_end (chunk_length (ustr ''abcd'') 2) 1 0 \<noteq>
     chunk_start (chunk_length (ustr ''abcd'') 2) 2 1 \<and>
   freq_SpIn [2] (ustr ''abcd'') 2 = Inr [(1, 1), (2, 0)]"
  by (simp add: freq_SpIn_def chunk_step_def count_step_def chunk_length_def ceil_div_def
      chunk_end_def chunk_start_def ustr_def upto.simps)

text \<open>
  Claim C2, amended: the bounds are inclusive on both ends and adjacent chunks do not overlap.
  For every \<open>1 \<le> k < N\<close> the start of chunk \<open>k + 1\<close> is the end of chunk \<open>k\<close> plus one; a
  location at the end of chunk \<open>k\<close> is counted once, in chunk \<open>k\<close>, and a location at the start
  of chunk \<open>k + 1\<close> once, in chunk \<open>k + 1\<close>.
\<close>

theorem segments_adjacent:
  assumes "1 \<le> k" and "k < N"
  shows "chunk_start (chunk_length text N) (k + 1) k = chunk_end (chunk_length text N) k (k - 1) + 1 \<and>
         freq_SpIn [chunk_end (chunk_length text N) k (k - 1)] text N =
           Inr (map (\<lambda>j. (j, if j = k then 1 else 0)) [1..N]) \<and>
         freq_SpIn [chunk_start (chunk_length text N) (k + 1) k] text N =
           Inr (map (\<lambda>j. (j, if j = k + 1 then 1 else 0)) [1..N])"
proof -
  let ?L = "chunk_length text N"
  have N: "0 < N" using assms by simp
  have L: "0 \<le> ?L" using N by (rule chunk_length_nonneg)
  have adj: "chunk_start ?L (k + 1) k = chunk_end ?L k (k - 1) + 1"
    using assms(1) by (simp add: chunk_start_def chunk_end_def algebra_simps)
  have e: "freq_SpIn [chunk_end ?L k (k - 1)] text N =
      Inr (map (\<lambda>j. (j, if j = k then 1 else 0)) [1..N])"
    by (simp only: freq_SpIn_eq [OF N] count_single [OF L chunk_end_in_chunk [OF L]])
  have "in_chunk ?L (k + 1) (chunk_start ?L (k + 1) k)"
    using chunk_start_in_chunk [OF L, of "k + 1"] by simp
  then have s: "freq_SpIn [chunk_start ?L (k + 1) k] text N =
      Inr (map (\<lambda>j. (j, if j = k + 1 then 1 else 0)) [1..N])"
    using count_single [OF L, of "k + 1" "chunk_start ?L (k + 1) k" "[1..N]"]
    by (simp only: freq_SpIn_eq [OF N])
  show ?thesis using adj e s by blast
qed

text \<open>The amended claim C2 at a text of four characters, two chunks and \<open>k = 1\<close>.\<close>

theorem segments_adjacent_witness:
  "(1::int) \<le> 1 \<and> (1::int) < 2 \<and>
   chunk_start (chunk_length (ustr ''abcd'') 2) (1 + 1) 1 =
     chunk_end (chunk_length (ustr ''abcd'') 2) 1 (1 - 1) + 1 \<and>
   freq_SpIn [chunk_end (chunk_length (ustr ''abcd'') 2) 1 (1 - 1)] (ustr ''abcd'') 2 =
     Inr [(1, 1), (2, 0)] \<and>
   freq_SpIn [chunk_start (chunk_length (ustr ''abcd'') 2) (1 + 1) 1] (ustr ''abcd'') 2 =
     Inr [(1, 0), (2, 1)]"
  using segments_adjacent [of 1 2 "ustr ''abcd''"]
  by (simp add: freq_SpIn_def chunk_step_def count_step_def chunk_length_def ceil_div_def
      chunk_end_def chunk_start_def ustr_def upto.simps)

section \<open>The keys of the histogram\<close>

text \<open>
  Claim C3: for every text, every list of locations and every positive number of chunks \<open>N\<close>,
  whether or not it divides the length of the text, \<open>freq_SpIn\<close> returns a dictionary whose
  keys are exactly \<open>1, \<dots>, N\<close> in this order, every count is non-negative, and a chunk that
  holds no location is present with the count zero.
\<close>

theorem freq_SpIn_keys:
  assumes "0 < N"
  shows "\<exists>densities. freq_SpIn SpIn_location text N = Inr densities \<and>
           map fst densities = [1..N] \<and>
           (\<forall>count\<in>set (map snd densities). 0 \<le> count) \<and>
           (\<forall>chunk\<in>set [1..N].
              (\<forall>loc\<in>set SpIn_location. \<not> in_chunk (chunk_length text N) chunk loc) \<longrightarrow>
              map_of densities chunk = Some 0)"
proof -
  let ?f = "\<lambda>k. int (length (filter (in_chunk (chunk_length text N) k) SpIn_location))"
  let ?d = "map (\<lambda>k. (k, ?f k)) [1..N]"
  have r: "freq_SpIn SpIn_location text N = Inr ?d"
    using assms by (rule freq_SpIn_eq)
  have k: "map fst ?d = [1..N]"
    by (simp add: comp_def)
  have v: "\<forall>count\<in>set (map snd ?d). 0 \<le> count"
    by auto
  have z: "\<forall>chunk\<in>set [1..N].
      (\<forall>loc\<in>set SpIn_location. \<not> in_chunk (chunk_length text N) chunk loc) \<longrightarrow>
      map_of ?d chunk = Some 0"
  proof (intro ballI impI)
    fix chunk assume c: "chunk \<in> set [1..N]"
      and n: "\<forall>loc\<in>set SpIn_location. \<not> in_chunk (chunk_length text N) chunk loc"
    from n have "filter (in_chunk (chunk_length text N) chunk) SpIn_location = []"
      by (simp add: filter_empty_conv)
    then have "?f chunk = 0" by simp
    moreover have "map_of ?d chunk = Some (?f chunk)"
      using c by (simp add: map_of_map_restrict)
    ultimately show "map_of ?d chunk = Some 0" by simp
  qed
  show ?thesis using r k v z by blast
qed

text \<open>Claim C3 at a text of five characters and two chunks.\<close>

theorem freq_SpIn_keys_witness:
  "(0::int) < 2 \<and> freq_SpIn [1] (ustr ''abcde'') 2 = Inr [(1, 1), (2, 0)]"
  using freq_SpIn_keys [of 2 "[1]" "ustr ''abcde''"]
  by (simp add: freq_SpIn_def chunk_step_def count_step_def chunk_length_def ceil_div_def
      chunk_end_def chunk_start_def ustr_def upto.simps)

section \<open>The sum of the histogram\<close>

text \<open>
  Claim C4, as the specification states it: for every list of locations that \<open>find_SpaRe\<close>
  returns on a text and every positive \<open>N\<close>, the counts of the histogram add up to the
  number of locations. With one chunk, a snippet that ends the text gives a location one past
  the end of the chunk; a snippet that is not in the text gives its own length as a location,
  which may lie beyond the last chunk. Either location is counted nowhere.
\<close>

theorem histogram_sum_counterexample:
  "find_SpaRe (ustr ''ab'') [ustr ''ab'', ustr ''x''] = [3] \<and>
   freq_SpIn [3] (ustr ''ab'') 1 = Inr [(1, 0)] \<and>
   sum_list (map snd [(1, 0 :: int)]) \<noteq> int (length [3 :: int]) \<and>
   find_SpaRe (ustr ''ab'') [ustr ''abcdefghij'', ustr ''x''] = [10] \<and>
   freq_SpIn [10] (ustr ''ab'') 2 = Inr [(1, 0), (2, 0)] \<and>
   sum_list (map snd [(1, 0), (2, 0 :: int)]) \<noteq> int (length [10 :: int])"
  by (simp add: find_SpaRe_def location_and_length_def find_step_def str_find_def
      freq_SpIn_def chunk_step_def count_step_def chunk_length_def ceil_div_def
      chunk_end_def chunk_start_def ustr_def upto.simps Let_def)

text \<open>
  Claim C4, amended: for every list of locations that \<open>find_SpaRe\<close> returns on a text and
  every positive \<open>N\<close>, the counts add up to the number of locations that are at most
  \<open>N * (chunk_length + 1) - 1\<close>, the end of the last chunk; each of these is counted in
  exactly one chunk and every other location in none. When \<open>N\<close> is at least 2 and every
  processed snippet occurs in the text, the counts add up to the number of all locations.
\<close>

theorem histogram_sum:
  assumes "0 < N"
  shows "\<exists>densities. freq_SpIn (find_SpaRe text snippets) text N = Inr densities \<and>
           sum_list (map snd densities) =
             int (length (filter (\<lambda>loc. loc \<le> N * (chunk_length text N + 1) - 1)
                            (find_SpaRe text snippets))) \<and>
           (\<forall>loc\<in>set (find_SpaRe text snippets).
              length (filter (\<lambda>chunk. in_chunk (chunk_length text N) chunk loc) [1..N]) =
                (if loc \<le> N * (chunk_length text N + 1) - 1 then 1 else 0)) \<and>
           (2 \<le> N \<and> (\<forall>s\<in>set (butlast snippets). occurs text s) \<longrightarrow>
              sum_list (map snd densities) = int (length (find_SpaRe text snippets)))"
proof -
  let ?L = "chunk_length text N"
  let ?locs = "find_SpaRe text snippets"
  let ?d = "map (\<lambda>k. (k, int (length (filter (in_chunk ?L k) ?locs)))) [1..N]"
  have L: "0 \<le> ?L" using assms by (rule chunk_length_nonneg)
  have nonneg: "\<And>loc. loc \<in> set ?locs \<Longrightarrow> 0 \<le> loc"
  proof -
    fix loc assume "loc \<in> set ?locs"
    then obtain s where "loc = str_find text s + int (length s) + 1"
      using find_SpaRe_members by blast
    then show "0 \<le> loc" using str_find_lower [of "text" s] by simp
  qed
  have r: "freq_SpIn ?locs text N = Inr ?d" using assms by (rule freq_SpIn_eq)
  have "filter (\<lambda>loc. 0 \<le> loc \<and> loc \<le> N * (?L + 1) - 1) ?locs =
      filter (\<lambda>loc. loc \<le> N * (?L + 1) - 1) ?locs"
    using nonneg by (intro filter_cong) auto
  then have s: "sum_list (map snd ?d) =
      int (length (filter (\<lambda>loc. loc \<le> N * (?L + 1) - 1) ?locs))"
    using freq_SpIn_sum [OF assms, of "text" ?locs] by simp
  have o: "\<forall>loc\<in>set ?locs. length (filter (\<lambda>chunk. in_chunk ?L chunk loc) [1..N]) =
      (if loc \<le> N * (?L + 1) - 1 then 1 else 0)"
    using nonneg by (simp add: chunks_containing [OF L])
  have a: "2 \<le> N \<and> (\<forall>s\<in>set (butlast snippets). occurs text s) \<longrightarrow>
      sum_list (map snd ?d) = int (length ?locs)"
  proof
    assume h: "2 \<le> N \<and> (\<forall>s\<in>set (butlast snippets). occurs text s)"
    have cover: "int (length text) \<le> N * ?L"
      using ceil_div_covers [OF assms, of "int (length text)"] by (simp add: chunk_length_def)
    have "\<forall>loc\<in>set ?locs. loc \<le> N * (?L + 1) - 1"
    proof
      fix loc assume "loc \<in> set ?locs"
      then obtain s where s: "s \<in> set (butlast snippets)"
        and loc: "loc = str_find text s + int (length s) + 1"
        using find_SpaRe_members by blast
      from s h have "str_find text s \<noteq> - 1" by (simp add: str_find_occurs)
      then have "str_find text s + int (length s) \<le> int (length text)"
        using str_find_found by blast
      then have "loc \<le> N * ?L + 1" using loc cover by linarith
      also have "\<dots> \<le> N * (?L + 1) - 1" using h by (simp add: algebra_simps)
      finally show "loc \<le> N * (?L + 1) - 1" .
    qed
    then have "filter (\<lambda>loc. loc \<le> N * (?L + 1) - 1) ?locs = ?locs"
      by (simp add: filter_id_conv)
    with s show "sum_list (map snd ?d) = int (length ?locs)" by simp
  qed
  show ?thesis using r s o a by blast
qed

text \<open>The amended claim C4 at the text of the scenario, one snippet that is searched and two chunks.\<close>

theorem histogram_sum_witness:
  "(0::int) < 2 \<and> (2::int) \<le> 2 \<and>
   occurs (ustr ''the cat sat on the mat'') (ustr ''the cat sat'') \<and>
   find_SpaRe (ustr ''the cat sat on the mat'') [ustr ''the cat sat'', ustr ''x''] = [12] \<and>
   freq_SpIn [12] (ustr ''the cat sat on the mat'') 2 = Inr [(1, 0), (2, 1)] \<and>
   sum_list (map snd [(1, 0), (2, 1 :: int)]) = int (length [12 :: int])"
  using histogram_sum [of 2 "ustr ''the cat sat on the mat''" "[ustr ''the cat sat'', ustr ''x'']"]
  by (simp add: find_SpaRe_def location_and_length_def find_step_def str_find_def
      freq_SpIn_def chunk_step_def count_step_def chunk_length_def ceil_div_def
      chunk_end_def chunk_start_def ustr_def upto.simps occurs_def Let_def)

section \<open>The locations that find_SpaRe returns\<close>

text \<open>
  Claim C5, as the specification states it: every location that \<open>find_SpaRe\<close> returns is the
  offset of the first occurrence of some processed snippet in the text, plus the length of that
  snippet, plus one. For the text \<open>ab\<close> and the snippets \<open>zz\<close> and \<open>x\<close>, the location 2 is
  returned although the only processed snippet, \<open>zz\<close>, occurs nowhere in the text.
\<close>

theorem location_formula_counterexample:
  "find_SpaRe (ustr ''ab'') [ustr ''zz'', ustr ''x''] = [2] \<and>
   butlast [ustr ''zz'', ustr ''x''] = [ustr ''zz''] \<and>
   \<not> occurs (ustr ''ab'') (ustr ''zz'')"
  by (simp add: find_SpaRe_def location_and_length_def find_step_def str_find_def
      ustr_def occurs_def Let_def)

text \<open>
  Claim C5, amended: every location that \<open>find_SpaRe\<close> returns is
  \<open>text.find(s) + len(s) + 1\<close> for some processed snippet \<open>s\<close>, where \<open>text.find(s)\<close> is the
  offset of the first occurrence of \<open>s\<close> when \<open>s\<close> occurs in the text, and \<open>-1\<close> when it does
  not.
\<close>

theorem location_formula:
  "\<forall>loc\<in>set (find_SpaRe text snippets).
     \<exists>s\<in>set (butlast snippets).
       loc = str_find text s + int (length s) + 1 \<and>
       (if occurs text s
        then 0 \<le> str_find text s \<and> first_occurrence text s (nat (str_find text s))
        else str_find text s = - 1)"
proof
  fix loc assume "loc \<in> set (find_SpaRe text snippets)"
  then obtain s where s: "s \<in> set (butlast snippets)"
    and loc: "loc = str_find text s + int (length s) + 1"
    using find_SpaRe_members by blast
  have "if occurs text s
        then 0 \<le> str_find text s \<and> first_occurrence text s (nat (str_find text s))
        else str_find text s = - 1"
    using str_find_spec [of "text" s] first_occurrence_occurs [of "text" s] by auto
  with s loc show "\<exists>s\<in>set (butlast snippets).
       loc = str_find text s + int (length s) + 1 \<and>
       (if occurs text s
        then 0 \<le> str_find text s \<and> first_occurrence text s (nat (str_find text s))
        else str_find text s = - 1)" by blast
qed

text \<open>The amended claim C5 at a text with one snippet that is searched and found at offset 2.\<close>

theorem location_formula_witness:
  "find_SpaRe (ustr ''a cat on'') [ustr ''cat'', ustr ''x''] = [6] \<and>
   butlast [ustr ''cat'', ustr ''x''] = [ustr ''cat''] \<and>
   occurs (ustr ''a cat on'') (ustr ''cat'') \<and>
   str_find (ustr ''a cat on'') (ustr ''cat'') = 2 \<and>
   first_occurrence (ustr ''a cat on'') (ustr ''cat'') 2 \<and>
   int (length (ustr ''cat'')) = 3"
  using location_formula [of "ustr ''a cat on''" "[ustr ''cat'', ustr ''x'']"]
  by (simp add: find_SpaRe_def location_and_length_def find_step_def str_find_def
      ustr_def occurs_def first_occurrence_def Let_def)

text \<open>
  Claim C6: for a list of \<open>n\<close> snippets, \<open>find_SpaRe\<close> searches the text for the first
  \<open>n - 1\<close> of them only. The dictionary records exactly the snippets before the last one; the
  result does not depend on the last snippet; a list of one snippet, like the empty list,
  gives no location.
\<close>

theorem last_snippet_ignored:
  "location_and_length text (snippets @ [s]) = recorded text [] snippets \<and>
   find_SpaRe text (snippets @ [s]) = find_SpaRe text (snippets @ [s']) \<and>
   find_SpaRe text [s] = [] \<and>
   find_SpaRe text [] = []"
proof -
  have a: "\<And>x. location_and_length text (snippets @ [x]) = recorded text [] snippets"
    by (simp add: location_and_length_eq)
  have "find_SpaRe text (snippets @ [s]) = find_SpaRe text (snippets @ [s'])"
    by (simp only: find_SpaRe_entries a)
  moreover have "find_SpaRe text [s] = []" "find_SpaRe text [] = []"
    by (simp_all add: find_SpaRe_entries location_and_length_eq)
  ultimately show ?thesis using a by simp
qed

text \<open>
  Claim C7, as the specification states it: when a processed snippet does not occur in the
  text, the returned list holds a location equal to the length of that snippet. For the text
  \<open>ab\<close> and the snippets \<open>zz\<close>, \<open>yyy\<close> and \<open>x\<close>, the snippet \<open>zz\<close> does not occur and has
  length 2, and the only location returned is 3.
\<close>

theorem absent_snippet_counterexample:
  "find_SpaRe (ustr ''ab'') [ustr ''zz'', ustr ''yyy'', ustr ''x''] = [3] \<and>
   str_find (ustr ''ab'') (ustr ''zz'') = - 1 \<and>
   int (length (ustr ''zz'')) = 2 \<and>
   int (length (ustr ''zz'')) \<notin> set (find_SpaRe (ustr ''ab'') [ustr ''zz'', ustr ''yyy'', ustr ''x''])"
  by (simp add: find_SpaRe_def location_and_length_def find_step_def str_find_def
      ustr_def Let_def)

text \<open>
  Claim C7, amended: when a processed snippet does not occur in the text, \<open>find_SpaRe\<close> fails
  in no way: the search gives \<open>-1\<close> for it, the dictionary holds exactly one entry under the
  key \<open>-1\<close>, whose value is the length of the last processed snippet that does not occur in
  the text, and the returned list holds the location derived from it, which is that length.
\<close>

theorem absent_snippet:
  assumes "s \<in> set (butlast snippets)" and "\<not> occurs text s"
  shows "str_find text s = - 1 \<and>
         filter (\<lambda>kv. fst kv = - 1) (location_and_length text snippets) =
           [(- 1, int (length (last (filter (\<lambda>s. \<not> occurs text s) (butlast snippets)))))] \<and>
         int (length (last (filter (\<lambda>s. \<not> occurs text s) (butlast snippets))))
           \<in> set (find_SpaRe text snippets)"
proof -
  let ?ps = "butlast snippets"
  let ?d = "location_and_length text snippets"
  let ?v = "int (length (last (filter (\<lambda>s. \<not> occurs text s) ?ps)))"
  have f: "str_find text s = - 1" using assms(2) by (simp add: str_find_occurs)
  have "filter (\<lambda>s. str_find text s = - 1) ?ps = filter (\<lambda>s. \<not> occurs text s) ?ps"
    by (simp add: str_find_occurs)
  then have "map_of ?d (- 1) = Some ?v"
    using assms(1) f by (auto simp: location_and_length_eq recorded_map_of)
  then have e: "filter (\<lambda>kv. fst kv = - 1) ?d = [(- 1, ?v)]"
    using location_and_length_distinct by (rule dict_entry [rotated])
  have "(- 1, ?v) \<in> set (filter (\<lambda>kv. fst kv = - 1) ?d)" by (simp only: e) simp
  then have "(- 1, ?v) \<in> set ?d" by simp
  then have "(\<lambda>kv. fst kv + snd kv + 1) (- 1, ?v) \<in> (\<lambda>kv. fst kv + snd kv + 1) ` set ?d"
    by (rule imageI)
  then have "?v \<in> set (find_SpaRe text snippets)"
    by (simp add: find_SpaRe_entries)
  with f e show ?thesis by simp
qed

text \<open>The amended claim C7 at the text \<open>ab\<close> with two snippets that do not occur in it.\<close>

theorem absent_snippet_witness:
  "ustr ''zz'' \<in> set (butlast [ustr ''zz'', ustr ''yyy'', ustr ''x'']) \<and>
   \<not> occurs (ustr ''ab'') (ustr ''zz'') \<and>
   location_and_length (ustr ''ab'') [ustr ''zz'', ustr ''yyy'', ustr ''x''] = [(- 1, 3)] \<and>
   last (filter (\<lambda>s. \<not> occurs (ustr ''ab'') s) (butlast [ustr ''zz'', ustr ''yyy'', ustr ''x'']))
     = ustr ''yyy'' \<and>
   find_SpaRe (ustr ''ab'') [ustr ''zz'', ustr ''yyy'', ustr ''x''] = [3]"
  using absent_snippet [of "ustr ''zz''" "[ustr ''zz'', ustr ''yyy'', ustr ''x'']" "ustr ''ab''"]
  by (simp add: find_SpaRe_def location_and_length_def find_step_def str_find_def
      ustr_def occurs_def Let_def)

text \<open>
  Claim C8: when two processed snippets \<open>i < j\<close> have the same offset in the text, the last
  write wins: the dictionary holds exactly one entry under that offset, whose value is the
  length of the last processed snippet with that offset, which is snippet \<open>j\<close>, the later of
  the two, when no further snippet with that offset follows; and \<open>find_SpaRe\<close> returns one
  location for every entry of the dictionary, its key plus its value plus one.
\<close>

theorem last_write_wins:
  assumes "i < j" and "j < length snippets - 1"
    and "str_find text (snippets ! i) = str_find text (snippets ! j)"
  shows "filter (\<lambda>kv. fst kv = str_find text (snippets ! j)) (location_and_length text snippets) =
           [(str_find text (snippets ! j),
             int (length (last (filter (\<lambda>s. str_find text s = str_find text (snippets ! j))
                                  (butlast snippets)))))] \<and>
         ((\<forall>k. j < k \<and> k < length snippets - 1 \<longrightarrow>
              str_find text (snippets ! k) \<noteq> str_find text (snippets ! j)) \<longrightarrow>
          last (filter (\<lambda>s. str_find text s = str_find text (snippets ! j)) (butlast snippets)) =
            snippets ! j) \<and>
         find_SpaRe text snippets =
           map (\<lambda>kv. fst kv + snd kv + 1) (location_and_length text snippets)"
proof -
  let ?ps = "butlast snippets"
  let ?off = "str_find text (snippets ! j)"
  have len: "length ?ps = length snippets - 1" by simp
  have nth: "\<And>k. k < length ?ps \<Longrightarrow> ?ps ! k = snippets ! k"
    by (simp add: nth_butlast)
  have j: "j < length ?ps" using assms(2) by simp
  have "?ps ! j \<in> set ?ps" using j by (rule nth_mem)
  then have "\<exists>s\<in>set ?ps. str_find text s = ?off" using nth [OF j] by auto
  then have "map_of (location_and_length text snippets) ?off =
      Some (int (length (last (filter (\<lambda>s. str_find text s = ?off) ?ps))))"
    by (simp add: location_and_length_eq recorded_map_of)
  then have one: "filter (\<lambda>kv. fst kv = ?off) (location_and_length text snippets) =
      [(?off, int (length (last (filter (\<lambda>s. str_find text s = ?off) ?ps))))]"
    using location_and_length_distinct by (rule dict_entry [rotated])
  have later: "(\<forall>k. j < k \<and> k < length snippets - 1 \<longrightarrow> str_find text (snippets ! k) \<noteq> ?off) \<longrightarrow>
      last (filter (\<lambda>s. str_find text s = ?off) ?ps) = snippets ! j"
  proof
    assume h: "\<forall>k. j < k \<and> k < length snippets - 1 \<longrightarrow> str_find text (snippets ! k) \<noteq> ?off"
    have "last (filter (\<lambda>s. str_find text s = ?off) ?ps) = ?ps ! j"
    proof (rule last_filter_nth [OF j])
      show "str_find text (?ps ! j) = ?off" using nth [OF j] by simp
      show "\<forall>k. j < k \<and> k < length ?ps \<longrightarrow> str_find text (?ps ! k) \<noteq> ?off"
        using h nth by (simp add: len)
    qed
    then show "last (filter (\<lambda>s. str_find text s = ?off) ?ps) = snippets ! j"
      using nth [OF j] by simp
  qed
  show ?thesis using one later find_SpaRe_entries by blast
qed

text \<open>Claim C8 at the text \<open>abcab\<close>, where the snippets \<open>ab\<close> and \<open>abc\<close> both start at 0.\<close>

theorem last_write_wins_witness:
  "(0::nat) < 1 \<and> (1::nat) < length [ustr ''ab'', ustr ''abc'', ustr ''x''] - 1 \<and>
   str_find (ustr ''abcab'') (ustr ''ab'') = 0 \<and>
   str_find (ustr ''abcab'') (ustr ''abc'') = 0 \<and>
   location_and_length (ustr ''abcab'') [ustr ''ab'', ustr ''abc'', ustr ''x''] = [(0, 3)] \<and>
   find_SpaRe (ustr ''abcab'') [ustr ''ab'', ustr ''abc'', ustr ''x''] = [4]"
  using last_write_wins [of 0 1 "[ustr ''ab'', ustr ''abc'', ustr ''x'']" "ustr ''abcab''",
      THEN conjunct1]
  by (simp add: find_SpaRe_def location_and_length_def find_step_def str_find_def
      ustr_def Let_def)

section \<open>The loops of clean_text\<close>

lemma keep_loop: "foldl (keep_step isalpha) acc xs = acc @ filter (kept isalpha) xs"
  by (induction xs arbitrary: acc) (simp_all add: keep_step_def apostrophe_def)

lemma alnum_and_space_eq: "alnum_and_space isalpha xs = filter (kept isalpha) xs"
  by (simp add: alnum_and_space_def keep_loop)

lemma single_step_Cons: "single_step (c # s) acc (Suc i) = single_step s acc i"
  by (simp add: single_step_def)

lemma single_loop_Cons:
  "foldl (single_step (c # s)) acc (map Suc is) = foldl (single_step s) acc is"
  by (induction "is" arbitrary: acc) (simp_all add: single_step_Cons)

lemma single_loop: "foldl (single_step s) acc [0..<length s - 1] = acc @ collapse s"
proof (induction s arbitrary: acc rule: collapse.induct)
  case (1 c d r)
  have "[0..<length (c # d # r) - 1] = 0 # map Suc [0..<length (d # r) - 1]"
    by (simp add: upt_conv_Cons map_Suc_upt del: upt_Suc)
  then have "foldl (single_step (c # d # r)) acc [0..<length (c # d # r) - 1] =
      foldl (single_step (d # r)) (single_step (c # d # r) acc 0) [0..<length (d # r) - 1]"
    by (simp only: foldl.simps single_loop_Cons)
  also have "\<dots> = single_step (c # d # r) acc 0 @ collapse (d # r)"
    using "1.IH" by (cases "c = space \<and> d = space") blast+
  also have "\<dots> = acc @ collapse (c # d # r)"
    by (simp add: single_step_def)
  finally show ?case .
qed simp_all

lemma alnum_and_single_space_eq: "alnum_and_single_space s = collapse s"
  using single_loop [of s "[]"] by (simp add: alnum_and_single_space_def)

lemma cleaned_eq:
  "cleaned isalpha contents = collapse (filter (kept isalpha) (replace_newlines contents))"
  by (simp only: alnum_and_single_space_eq alnum_and_space_eq)

lemma collapse_subseq: "subseq (collapse s) (butlast s)"
  by (induction s rule: collapse.induct) auto







lemma collapse_no_space: "space \<notin> set s \<Longrightarrow> collapse s = butlast s"
  by (induction s rule: collapse.induct) auto











section \<open>The text that clean_text returns\<close>




text \<open>
  Claim C10: when the string filtered by the first loop is not empty, \<open>clean_text\<close> never
  emits its final character: the result is drawn, in order, from the characters before the
  final one, so it is strictly shorter than the filtered string; a text of letters only is
  returned without its last letter.
\<close>

theorem clean_text_drops_last:
  assumes "fs path = Some contents"
    and "alnum_and_space isalpha (replace_newlines contents) \<noteq> []"
  shows "\<exists>out. clean_text isalpha fs path = Inr out \<and>
    length out < length (alnum_and_space isalpha (replace_newlines contents)) \<and>
    subseq out (butlast (alnum_and_space isalpha (replace_newlines contents))) \<and>
    ((\<forall>c\<in>set contents. isalpha c \<and> c \<noteq> space \<and> c \<noteq> newline) \<longrightarrow> out = butlast contents)"
proof -
  let ?F = "alnum_and_space isalpha (replace_newlines contents)"
  have r: "clean_text isalpha fs path = Inr (cleaned isalpha contents)"
    using assms(1) by (simp add: clean_text_def)
  have s: "subseq (cleaned isalpha contents) (butlast ?F)"
    by (simp only: alnum_and_single_space_eq collapse_subseq)
  then have "length (cleaned isalpha contents) \<le> length (butlast ?F)"
    by (rule list_emb_length)
  moreover have "length (butlast ?F) < length ?F"
    using assms(2) by (cases ?F) simp_all
  ultimately have l: "length (cleaned isalpha contents) < length ?F"
    by linarith
  have e: "(\<forall>c\<in>set contents. isalpha c \<and> c \<noteq> space \<and> c \<noteq> newline) \<longrightarrow>
      cleaned isalpha contents = butlast contents"
  proof
    assume h: "\<forall>c\<in>set contents. isalpha c \<and> c \<noteq> space \<and> c \<noteq> newline"
    then have "replace_newlines contents = contents"
      by (simp add: replace_newlines_def map_idI)
    moreover have "filter (kept isalpha) contents = contents"
      using h by (simp add: filter_id_conv)
    moreover have "space \<notin> set contents" using h by blast
    moreover have "cleaned isalpha contents =
        collapse (filter (kept isalpha) (replace_newlines contents))"
      by (simp only: cleaned_eq)
    ultimately show "cleaned isalpha contents = butlast contents"
      by (simp add: collapse_no_space)
  qed
  show ?thesis using r s l e by blast
qed

text \<open>Claim C10 at a file of three letters.\<close>

theorem clean_text_drops_last_witness:
  "[ustr ''f'' \<mapsto> ustr ''abc''] (ustr ''f'') = Some (ustr ''abc'') \<and>
   alnum_and_space (\<lambda>c. 97 \<le> c \<and> c \<le> 122) (replace_newlines (ustr ''abc'')) = ustr ''abc'' \<and>
   clean_text (\<lambda>c. 97 \<le> c \<and> c \<le> 122) [ustr ''f'' \<mapsto> ustr ''abc''] (ustr ''f'') =
     Inr (ustr ''ab'')"
  using clean_text_drops_last [of "[ustr ''f'' \<mapsto> ustr ''abc'']" "ustr ''f''" "ustr ''abc''"
      "\<lambda>c. 97 \<le> c \<and> c \<le> 122"]
  by (simp add: clean_text_def alnum_and_single_space_def single_step_def alnum_and_space_def
      keep_step_def replace_newlines_def apostrophe_def space_def hyphen_def newline_def ustr_def)

end
